theory Spec2Isabelle
  imports Main "HOL-Library.Word"
begin

unbundle bit_operations_syntax

section \<open>The ring buffer of uart\_buffered.h\<close>

text \<open>
  The development embeds the inline functions of \<^verbatim>\<open>src/uart-buffered/src/uart_buffered.h\<close>
  (\<^verbatim>\<open>fifo_capacity\<close>, \<^verbatim>\<open>fifo_used\<close>, \<^verbatim>\<open>fifo_full\<close>, \<^verbatim>\<open>fifo_empty\<close>, \<^verbatim>\<open>fifo_push\<close>,
  \<^verbatim>\<open>fifo_peek\<close>, \<^verbatim>\<open>fifo_pop\<close>) and the construction macros \<^verbatim>\<open>FIFO_DEFINE\<close>,
  \<^verbatim>\<open>FIFO_CAPACITY\<close> and \<^verbatim>\<open>FIFO_INITIALIZER\<close>.

  Integer types are those of the 32-bit Zephyr targets the repository builds for:
  \<^verbatim>\<open>u8_t\<close> and \<^verbatim>\<open>u16_t\<close> are 8 and 16 bit unsigned, \<^verbatim>\<open>int\<close> is 32 bit two's complement
  and \<^verbatim>\<open>size_t\<close> is 32 bit unsigned.
\<close>

subsection \<open>Data\<close>

type_synonym u8_t = "8 word"
type_synonym u16_t = "16 word"
type_synonym c_int = "32 word" \<comment> \<open>C \<^verbatim>\<open>int\<close>; its value is read with \<^const>\<open>sint\<close>\<close>
type_synonym size_t = "32 word"

text \<open>
  \<^verbatim>\<open>struct fifo { u16_t write; u16_t read; u8_t buf[]; }\<close>.  The flexible array member
  is the list \<open>buf\<close>; its length is the number of bytes that the defining array reserves
  behind the two counters.
\<close>

record fifo =
  "write" :: u16_t
  read :: u16_t
  buf :: "u8_t list"

text \<open>
  \<^verbatim>\<open>struct fifo_handle\<close>.  Of its four members only \<^verbatim>\<open>capacity_mask\<close> is data of the
  ring.  The member \<^verbatim>\<open>fifo\<close> is a pointer: the object it points to is passed to every
  function below as an explicit \<^typ>\<open>fifo\<close> argument and handed back when it is written.
  The members \<^verbatim>\<open>device\<close> and \<^verbatim>\<open>signal\<close> are not read by any of the embedded functions.
\<close>

record fifo_handle =
  capacity_mask :: size_t

text \<open>
  What stops a function before it returns: a failed \<^verbatim>\<open>__ASSERT\<close> (fatal in Zephyr) and
  an access to \<^verbatim>\<open>buf\<close> outside the bytes reserved for it (undefined in C).  What
  stops the build of a definition: an array that the compiler refuses for its size, and
  a failed \<^verbatim>\<open>BUILD_ASSERT_MSG\<close>.
\<close>

datatype fault = Assert_Failed string | Out_Of_Bounds

datatype build_error = Array_Too_Large | Build_Assert string

subsection \<open>Integer conversions of C\<close>

text \<open>
  Integer promotion: an operand of type \<^verbatim>\<open>u16_t\<close> becomes an \<^verbatim>\<open>int\<close> of the same value.
\<close>

definition int_promote :: "u16_t \<Rightarrow> c_int" where
  "int_promote x = ucast x"

text \<open>
  Conversion of an \<^verbatim>\<open>int\<close> to \<^verbatim>\<open>size_t\<close>: the value modulo \<open>2 ^ 32\<close>.
\<close>

definition size_t_of_int :: "c_int \<Rightarrow> size_t" where
  "size_t_of_int x = word_of_int (sint x)"

subsection \<open>Construction\<close>

text \<open>
  \<^verbatim>\<open>offsetof(struct fifo, buf)\<close>: the two 16-bit counters precede the bytes.
\<close>

definition offsetof_buf :: size_t where
  "offsetof_buf = 4"

text \<open>
  \<^verbatim>\<open>FIFO_DEFINE(name, size)\<close> declares \<^verbatim>\<open>u8_t name[offsetof(struct fifo, buf) + (size)]\<close>
  and checks \<^verbatim>\<open>((size) & ((size)-1)) == 0\<close> with \<^verbatim>\<open>BUILD_ASSERT_MSG\<close>.  The array has
  static storage, so every byte starts as zero; seen through the cast
  \<^verbatim>\<open>(struct fifo *)&name\<close> of \<^verbatim>\<open>FIFO_INITIALIZER\<close> it is a \<^typ>\<open>fifo\<close> with both counters
  zero and \<open>size\<close> zero bytes behind them.

  The declaration comes first: the length of the array is computed in \<^verbatim>\<open>size_t\<close>, and
  the compiler refuses (``size of array is too large'') an array of \<open>2 ^ 31\<close> bytes or
  more, half of the 32-bit address space.  A length that wraps around to less than the
  four bytes of the counters belongs to a size of at least \<open>2 ^ 32 - 4\<close>, which fails
  the check.
\<close>

definition FIFO_DEFINE :: "size_t \<Rightarrow> build_error + fifo" where
  "FIFO_DEFINE sz =
     (if 2 ^ 31 \<le> unat (offsetof_buf + sz) then Inl Array_Too_Large
      else if sz AND (sz - 1) = 0
      then Inr \<lparr>write = 0, read = 0, buf = replicate (unat sz) 0\<rparr>
      else Inl (Build_Assert ''fifo size must be a power of 2''))"

text \<open>\<^verbatim>\<open>sizeof(name)\<close> for the array behind a \<^typ>\<open>fifo\<close>.\<close>

definition sizeof_name :: "fifo \<Rightarrow> size_t" where
  "sizeof_name name = offsetof_buf + of_nat (length (buf name))"

text \<open>\<^verbatim>\<open>#define FIFO_CAPACITY(name) (sizeof(name) - offsetof(struct fifo, buf))\<close>\<close>

definition FIFO_CAPACITY :: "fifo \<Rightarrow> size_t" where
  "FIFO_CAPACITY name = sizeof_name name - offsetof_buf"

text \<open>
  \<^verbatim>\<open>FIFO_INITIALIZER(fifo_name, signal_name)\<close>:
  \<^verbatim>\<open>.capacity_mask = FIFO_CAPACITY(fifo_name) - 1\<close>.
\<close>

definition FIFO_INITIALIZER :: "fifo \<Rightarrow> fifo_handle" where
  "FIFO_INITIALIZER fifo_name = \<lparr>capacity_mask = FIFO_CAPACITY fifo_name - 1\<rparr>"

subsection \<open>Queries\<close>

text \<open>\<^verbatim>\<open>return fifo->capacity_mask + 1;\<close>\<close>

definition fifo_capacity :: "fifo_handle \<Rightarrow> size_t" where
  "fifo_capacity h = capacity_mask h + 1"

text \<open>
  \<^verbatim>\<open>return fifo->fifo->write - fifo->fifo->read;\<close>  Both operands are promoted to
  \<^verbatim>\<open>int\<close>, the difference is taken in \<^verbatim>\<open>int\<close> (it lies between \<open>-65535\<close> and \<open>65535\<close>, so
  it cannot overflow), and the result is converted to the return type \<^verbatim>\<open>size_t\<close>.
\<close>

definition fifo_used :: "fifo_handle \<Rightarrow> fifo \<Rightarrow> size_t" where
  "fifo_used h f = size_t_of_int (int_promote (write f) - int_promote (read f))"

text \<open>\<^verbatim>\<open>return fifo_used(fifo) >= fifo_capacity(fifo);\<close>\<close>

definition fifo_full :: "fifo_handle \<Rightarrow> fifo \<Rightarrow> bool" where
  "fifo_full h f \<longleftrightarrow> fifo_used h f \<ge> fifo_capacity h"

text \<open>\<^verbatim>\<open>return fifo_used(fifo) == 0;\<close>\<close>

definition fifo_empty :: "fifo_handle \<Rightarrow> fifo \<Rightarrow> bool" where
  "fifo_empty h f \<longleftrightarrow> fifo_used h f = 0"

subsection \<open>Push, peek and pop\<close>

text \<open>
  The subscript \<^verbatim>\<open>index & fifo->capacity_mask\<close>: the counter is promoted to \<^verbatim>\<open>int\<close> and
  then converted to \<^verbatim>\<open>size_t\<close> for the bitwise and with the mask.
\<close>

definition fifo_offset :: "fifo_handle \<Rightarrow> u16_t \<Rightarrow> size_t" where
  "fifo_offset h i = size_t_of_int (int_promote i) AND capacity_mask h"

text \<open>
  \<^verbatim>\<open>__ASSERT(test, msg)\<close> stops the program when the test fails, and is compiled to
  nothing when assertions are configured off; \<open>asserts\<close> is that configuration switch.

  \<^verbatim>\<open>fifo->fifo->buf[fifo->fifo->write++ & fifo->capacity_mask] = val;\<close>  The subscript
  uses the counter before the increment; the increment is stored back into a \<^verbatim>\<open>u16_t\<close>
  and so wraps from 65535 to 0.
\<close>

definition fifo_push :: "bool \<Rightarrow> fifo_handle \<Rightarrow> u8_t \<Rightarrow> fifo \<Rightarrow> fault + fifo" where
  "fifo_push asserts h val f =
     (if asserts \<and> fifo_full h f then Inl (Assert_Failed ''push to full fifo'')
      else let i = unat (fifo_offset h (write f)) in
        if i < length (buf f)
        then Inr (f\<lparr>buf := (buf f)[i := val], write := write f + 1\<rparr>)
        else Inl Out_Of_Bounds)"

text \<open>
  \<^verbatim>\<open>return fifo->fifo->buf[fifo->fifo->read & fifo->capacity_mask];\<close>  Nothing is
  written; the function hands back the fifo it was given.
\<close>

definition fifo_peek :: "bool \<Rightarrow> fifo_handle \<Rightarrow> fifo \<Rightarrow> fault + (u8_t \<times> fifo)" where
  "fifo_peek asserts h f =
     (if asserts \<and> fifo_empty h f then Inl (Assert_Failed ''peek from empty fifo'')
      else let i = unat (fifo_offset h (read f)) in
        if i < length (buf f)
        then Inr (buf f ! i, f)
        else Inl Out_Of_Bounds)"

text \<open>\<^verbatim>\<open>return fifo->fifo->buf[fifo->fifo->read++ & fifo->capacity_mask];\<close>\<close>

definition fifo_pop :: "bool \<Rightarrow> fifo_handle \<Rightarrow> fifo \<Rightarrow> fault + (u8_t \<times> fifo)" where
  "fifo_pop asserts h f =
     (if asserts \<and> fifo_empty h f then Inl (Assert_Failed ''pop from empty fifo'')
      else let i = unat (fifo_offset h (read f)) in
        if i < length (buf f)
        then Inr (buf f ! i, f\<lparr>read := read f + 1\<rparr>)
        else Inl Out_Of_Bounds)"

subsection \<open>Sequences of operations\<close>

datatype fifo_op = Push u8_t | Pop

text \<open>
  A caller that performs the operations one after the other, collecting the bytes that
  the pops return.  The first fault stops the run.
\<close>

fun fifo_run :: "bool \<Rightarrow> fifo_handle \<Rightarrow> fifo_op list \<Rightarrow> fifo \<Rightarrow> fault + (fifo \<times> u8_t list)" where
  "fifo_run asserts h [] f = Inr (f, [])"
| "fifo_run asserts h (Push v # ops) f =
     (case fifo_push asserts h v f of
        Inl e \<Rightarrow> Inl e
      | Inr f' \<Rightarrow> fifo_run asserts h ops f')"
| "fifo_run asserts h (Pop # ops) f =
     (case fifo_pop asserts h f of
        Inl e \<Rightarrow> Inl e
      | Inr (b, f') \<Rightarrow>
          (case fifo_run asserts h ops f' of
             Inl e \<Rightarrow> Inl e
           | Inr (f'', out) \<Rightarrow> Inr (f'', b # out)))"

text \<open>The bytes given to the pushes of a sequence, in order.\<close>

fun pushed :: "fifo_op list \<Rightarrow> u8_t list" where
  "pushed [] = []"
| "pushed (Push v # ops) = v # pushed ops"
| "pushed (Pop # ops) = pushed ops"

text \<open>
  The caller's discipline: every push happens in a state where \<^const>\<open>fifo_full\<close> is
  false and every pop in a state where \<^const>\<open>fifo_empty\<close> is false.  The states are
  those that the operations produce; nothing is asked of what would follow a fault,
  since the run stops there.
\<close>

fun disciplined :: "fifo_handle \<Rightarrow> fifo_op list \<Rightarrow> fifo \<Rightarrow> bool" where
  "disciplined h [] f = True"
| "disciplined h (Push v # ops) f =
     (\<not> fifo_full h f \<and>
      (case fifo_push False h v f of Inl e \<Rightarrow> True | Inr f' \<Rightarrow> disciplined h ops f'))"
| "disciplined h (Pop # ops) f =
     (\<not> fifo_empty h f \<and>
      (case fifo_pop False h f of Inl e \<Rightarrow> True | Inr (b, f') \<Rightarrow> disciplined h ops f'))"

subsection \<open>Well-formed handles and the buffered bytes\<close>

text \<open>
  The invariant written at \<^verbatim>\<open>capacity_mask\<close> (``capacity - 1. Capacity must be power of
  2''), together with the size of the storage: the handle was initialised for a fifo of
  \<open>2 ^ k\<close> bytes.
\<close>

definition fifo_wf :: "nat \<Rightarrow> fifo_handle \<Rightarrow> fifo \<Rightarrow> bool" where
  "fifo_wf k h f \<longleftrightarrow> k < 32 \<and> capacity_mask h = 2 ^ k - 1 \<and> length (buf f) = 2 ^ k"

text \<open>
  The bytes between the read and the write counter, oldest first: the counters are
  16-bit, so there are \<open>(write - read) mod 2 ^ 16\<close> of them.
\<close>

definition fifo_contents :: "fifo_handle \<Rightarrow> fifo \<Rightarrow> u8_t list" where
  "fifo_contents h f =
     map (\<lambda>i. buf f ! unat (fifo_offset h (read f + of_nat i))) [0..<unat (write f - read f)]"

section \<open>Arithmetic of the counters\<close>

lemma size_t_of_int_id: "size_t_of_int x = x"
  by (simp add: size_t_of_int_def)

lemma unat16_less: "unat (x :: u16_t) < 65536"
  using unsigned_less [of x] by simp

lemma unat_int_promote: "unat (int_promote x) = unat x"
  by (simp add: int_promote_def unsigned_ucast_eq take_bit_nat_eq_self_iff)
    (rule less_trans [OF unsigned_less], simp)

lemma fifo_used_eq: "fifo_used h f = int_promote (write f) - int_promote (read f)"
  by (simp add: fifo_used_def size_t_of_int_id)

text \<open>
  The value of \<^const>\<open>fifo_used\<close>: the difference of the counters when the write counter
  is not below the read counter, and \<open>2 ^ 32\<close> more than the (negative) difference when
  it is below.
\<close>

lemma unat_fifo_used:
  "unat (fifo_used h f) =
     (if unat (read f) \<le> unat (write f) then unat (write f) - unat (read f)
      else unat (write f) + 2 ^ 32 - unat (read f))"
  unfolding fifo_used_eq
  by (simp add: unat_sub_if' unat_int_promote)

text \<open>
  As long as the write counter is not below the read counter, \<^const>\<open>fifo_used\<close> is the
  difference of the counters modulo \<open>2 ^ 16\<close>.  Once the write counter has wrapped and
  the read counter has not, it is \<open>2 ^ 32 - 2 ^ 16\<close> more than that.
\<close>

lemma fifo_used_not_wrapped:
  "unat (read f) \<le> unat (write f) \<Longrightarrow> unat (fifo_used h f) = unat (write f - read f)"
  by (simp add: unat_fifo_used unat_sub word_le_nat_alt)

lemma fifo_used_wrapped:
  assumes "unat (write f) < unat (read f)"
  shows "unat (fifo_used h f) = 2 ^ 32 - 2 ^ 16 + unat (write f - read f)"
proof -
  have "unat (write f - read f) = unat (write f) + 2 ^ 16 - unat (read f)"
    using assms by (simp add: unat_sub_if')
  with assms unat16_less [of "read f"] show ?thesis
    by (simp add: unat_fifo_used)
qed

lemma fifo_empty_iff: "fifo_empty h f \<longleftrightarrow> write f = read f"
proof -
  have "fifo_empty h f \<longleftrightarrow> unat (fifo_used h f) = 0"
    by (simp add: fifo_empty_def unat_eq_0)
  also have "\<dots> \<longleftrightarrow> unat (write f) = unat (read f)"
    using unat16_less [of "write f"] unat16_less [of "read f"]
    by (auto simp: unat_fifo_used)
  finally show ?thesis by (simp add: word_unat_eq_iff)
qed

lemma unat_2p32:
  assumes "k < 32"
  shows "unat ((2 :: size_t) ^ k) = 2 ^ k"
proof -
  have "(2::nat) ^ k < 2 ^ 32"
    using assms by (simp only: power_strict_increasing_iff one_less_numeral_iff semiring_norm)
  moreover have "(2 :: size_t) ^ k = of_nat (2 ^ k)" by simp
  ultimately show ?thesis
    by (simp only: unat_of_nat len_of_numeral_defs) simp
qed

lemma capacity_wf: "fifo_wf k h f \<Longrightarrow> fifo_capacity h = 2 ^ k"
  by (simp add: fifo_wf_def fifo_capacity_def)

lemma unat_capacity_wf: "fifo_wf k h f \<Longrightarrow> unat (fifo_capacity h) = 2 ^ k"
  by (simp add: fifo_wf_def fifo_capacity_def unat_2p32)

lemma unat_offset_wf: "fifo_wf k h f \<Longrightarrow> unat (fifo_offset h i) = unat i mod 2 ^ k"
proof -
  assume wf: "fifo_wf k h f"
  then have "fifo_offset h i = int_promote i mod 2 ^ k"
    by (simp add: fifo_wf_def fifo_offset_def size_t_of_int_id take_bit_eq_mod
        flip: mask_eq_decr_exp take_bit_eq_mask)
  moreover from wf have "k < 32"
    by (simp add: fifo_wf_def)
  ultimately show ?thesis
    by (simp add: unat_2p32 unat_int_promote unat_mod)
qed

lemma offset_in_bounds: "fifo_wf k h f \<Longrightarrow> unat (fifo_offset h i) < length (buf f)"
  by (simp add: unat_offset_wf) (simp add: fifo_wf_def)

text \<open>
  For a well-formed handle \<^const>\<open>fifo_full\<close> is false exactly when the write counter is
  not below the read counter and less than a capacity ahead of it.
\<close>

lemma not_full_wf:
  assumes "fifo_wf k h f"
  shows "\<not> fifo_full h f \<longleftrightarrow>
    unat (read f) \<le> unat (write f) \<and> unat (write f) - unat (read f) < 2 ^ k"
proof -
  from assms have k: "k < 32" by (simp add: fifo_wf_def)
  then have "(2::nat) ^ k \<le> 2 ^ 31"
    by (simp only: power_increasing_iff one_less_numeral_iff semiring_norm)
  then show ?thesis
    using unat16_less [of "write f"] unat16_less [of "read f"]
    by (auto simp: fifo_full_def word_le_nat_alt unat_capacity_wf [OF assms] unat_fifo_used)
qed

section \<open>The operations on a well-formed handle\<close>

lemma fifo_offset_eq: "fifo_offset h i = ucast i AND capacity_mask h"
  by (simp add: fifo_offset_def size_t_of_int_id int_promote_def)

lemmas fifo_eval = fifo_full_def fifo_empty_iff fifo_used_eq int_promote_def fifo_capacity_def
  fifo_offset_eq word_le_nat_alt

lemma fifo_push_wf:
  assumes "fifo_wf k h f" and "\<not> (asserts \<and> fifo_full h f)"
  shows "fifo_push asserts h v f =
    Inr (f\<lparr>buf := (buf f)[unat (fifo_offset h (write f)) := v], write := write f + 1\<rparr>)"
  using assms offset_in_bounds [OF assms(1), of "write f"]
  by (simp add: fifo_push_def Let_def)

lemma fifo_pop_wf:
  assumes "fifo_wf k h f" and "\<not> (asserts \<and> fifo_empty h f)"
  shows "fifo_pop asserts h f =
    Inr (buf f ! unat (fifo_offset h (read f)), f\<lparr>read := read f + 1\<rparr>)"
  using assms offset_in_bounds [OF assms(1), of "read f"]
  by (simp add: fifo_pop_def Let_def)

lemma fifo_peek_wf:
  assumes "fifo_wf k h f" and "\<not> (asserts \<and> fifo_empty h f)"
  shows "fifo_peek asserts h f = Inr (buf f ! unat (fifo_offset h (read f)), f)"
  using assms offset_in_bounds [OF assms(1), of "read f"]
  by (simp add: fifo_peek_def Let_def)

lemma fifo_wf_buf [simp]: "fifo_wf k h (f\<lparr>buf := (buf f)[i := v]\<rparr>) = fifo_wf k h f"
  by (simp add: fifo_wf_def)

lemma fifo_wf_pop [simp]: "fifo_wf k h (f\<lparr>read := r\<rparr>) = fifo_wf k h f"
  by (simp add: fifo_wf_def)

lemma fifo_wf_write [simp]: "fifo_wf k h (f\<lparr>write := w\<rparr>) = fifo_wf k h f"
  by (simp add: fifo_wf_def)

text \<open>Taking the byte at the read counter away leaves the rest of the buffered bytes.\<close>

lemma fifo_contents_pop:
  assumes "write f \<noteq> read f"
  shows "fifo_contents h f =
    buf f ! unat (fifo_offset h (read f)) # fifo_contents h (f\<lparr>read := read f + 1\<rparr>)"
proof -
  let ?n = "unat (write f - read f)"
  from assms have pos: "0 < ?n"
    by (simp add: unat_gt_0)
  then have n1: "unat (write f - (read f + 1)) = ?n - 1"
    by (metis diff_diff_eq unat_minus_one unat_eq_zero less_numeral_extra(3))
  have upt: "[0..<?n] = 0 # map Suc [0..<?n - 1]"
    using pos by (metis Suc_diff_1 map_Suc_upt upt_conv_Cons)
  show ?thesis
    unfolding fifo_contents_def upt
    by (simp add: n1 o_def add.assoc)
qed

text \<open>
  The offsets of the buffered bytes differ from the offset at the write counter, as
  long as fewer than \<open>2 ^ k\<close> bytes are buffered and \<open>2 ^ k\<close> divides \<open>2 ^ 16\<close>.
\<close>

lemma slot_distinct:
  fixes w r :: u16_t
  assumes k: "k \<le> 16" and i: "i < unat (w - r)" and n: "unat (w - r) < 2 ^ k"
  shows "unat (r + of_nat i) mod 2 ^ k \<noteq> unat w mod 2 ^ k"
proof
  let ?a = "r + of_nat i"
  let ?d = "unat (w - r) - i"
  assume eq: "unat ?a mod 2 ^ k = unat w mod 2 ^ k"
  have d: "0 < ?d" "?d < 2 ^ k"
    using i n by simp_all
  have dvd: "(2::nat) ^ k dvd 2 ^ 16"
    using k by (rule le_imp_power_dvd)
  have "of_nat ?d = w - r - of_nat i"
    using i by (simp add: of_nat_diff)
  then have w: "w = ?a + of_nat ?d"
    by simp
  have "unat w = (unat ?a + ?d mod 2 ^ 16) mod 2 ^ 16"
    by (subst w) (simp only: unat_word_ariths unat_of_nat len_of_numeral_defs, simp)
  then have "unat w mod 2 ^ k = (unat ?a + ?d) mod 2 ^ k"
    using dvd by (simp add: mod_mod_cancel mod_add_right_eq)
  with eq have "(unat ?a + ?d) mod 2 ^ k = unat ?a mod 2 ^ k"
    by simp
  then have "2 ^ k dvd (unat ?a + ?d) - unat ?a"
    by (subst (asm) mod_eq_dvd_iff_nat) simp_all
  then have "2 ^ k dvd ?d"
    by simp
  with d show False
    using nat_dvd_not_less by blast
qed

text \<open>
  A push into a fifo that holds fewer bytes than its capacity, the capacity being at
  most \<open>2 ^ 15\<close>, appends the byte to the buffered bytes.
\<close>

lemma fifo_contents_push:
  assumes wf: "fifo_wf k h f" and k: "k \<le> 15" and n: "unat (write f - read f) < 2 ^ k"
  shows "fifo_contents h (f\<lparr>buf := (buf f)[unat (fifo_offset h (write f)) := v],
      write := write f + 1\<rparr>) = fifo_contents h f @ [v]"
proof -
  let ?n = "unat (write f - read f)"
  let ?f' = "f\<lparr>buf := (buf f)[unat (fifo_offset h (write f)) := v], write := write f + 1\<rparr>"
  have wf': "fifo_wf k h ?f'"
    using wf by (simp add: fifo_wf_def)
  have "(2::nat) ^ k \<le> 2 ^ 15"
    using k by (simp only: power_increasing_iff one_less_numeral_iff semiring_norm)
  with n have small: "?n + 1 < 65536"
    by simp
  have "unat ((write f - read f) + 1) = (?n + 1) mod 2 ^ 16"
    by (simp only: unat_word_ariths unat_1 len_of_numeral_defs) simp
  with small have "unat ((write f - read f) + 1) = Suc ?n"
    by simp
  moreover have "write f + 1 - read f = (write f - read f) + 1"
    by simp
  ultimately have n1: "unat (write f + 1 - read f) = Suc ?n"
    by (simp only:)
  have last: "read f + of_nat ?n = write f"
    by simp
  have old: "buf ?f' ! unat (fifo_offset h (read f + of_nat i)) =
      buf f ! unat (fifo_offset h (read f + of_nat i))" if "i < ?n" for i
  proof -
    from k have "k \<le> 16" by simp
    from slot_distinct [OF this that n]
    show ?thesis
      by (simp add: unat_offset_wf [OF wf])
  qed
  have new: "buf ?f' ! unat (fifo_offset h (write f)) = v"
    using offset_in_bounds [OF wf, of "write f"] by simp
  show ?thesis
    unfolding fifo_contents_def
    using old new by (simp add: n1 last)
qed

section \<open>Full and empty\<close>

text \<open>
  Claim C3, as the code has it.  \<^const>\<open>fifo_full\<close> compares with \<open>\<ge>\<close>: it is true
  exactly when \<^const>\<open>fifo_used\<close> is at least the capacity, which is the same as being
  equal to the capacity only for a fifo whose \<^const>\<open>fifo_used\<close> does not exceed the
  capacity.  \<^const>\<open>fifo_empty\<close> is true exactly when \<^const>\<open>fifo_used\<close> is 0.  With
  \<open>0 < used < capacity\<close> both are false, and for a capacity above 0 they are never both
  true.
\<close>

theorem fifo_full_empty_used:
  "(fifo_full h f \<longleftrightarrow> fifo_capacity h \<le> fifo_used h f) \<and>
   (fifo_used h f \<le> fifo_capacity h \<longrightarrow>
      (fifo_full h f \<longleftrightarrow> fifo_used h f = fifo_capacity h)) \<and>
   (fifo_empty h f \<longleftrightarrow> fifo_used h f = 0) \<and>
   (0 < fifo_used h f \<and> fifo_used h f < fifo_capacity h \<longrightarrow>
      \<not> fifo_full h f \<and> \<not> fifo_empty h f) \<and>
   (0 < fifo_capacity h \<longrightarrow> \<not> (fifo_full h f \<and> fifo_empty h f))"
  by (auto simp: fifo_full_def fifo_empty_def)

theorem fifo_full_empty_used_witness:
  "fifo_used \<lparr>capacity_mask = 3\<rparr> \<lparr>write = 6, read = 4, buf = [0, 0, 0, 0]\<rparr> = 2 \<and>
   fifo_capacity \<lparr>capacity_mask = 3\<rparr> = 4 \<and>
   \<not> fifo_full \<lparr>capacity_mask = 3\<rparr> \<lparr>write = 6, read = 4, buf = [0, 0, 0, 0]\<rparr> \<and>
   \<not> fifo_empty \<lparr>capacity_mask = 3\<rparr> \<lparr>write = 6, read = 4, buf = [0, 0, 0, 0]\<rparr> \<and>
   fifo_used \<lparr>capacity_mask = 3\<rparr> \<lparr>write = 8, read = 4, buf = [0, 0, 0, 0]\<rparr> = 4 \<and>
   fifo_full \<lparr>capacity_mask = 3\<rparr> \<lparr>write = 8, read = 4, buf = [0, 0, 0, 0]\<rparr>"
  using
    fifo_full_empty_used [of "\<lparr>capacity_mask = 3\<rparr>" "\<lparr>write = 6, read = 4, buf = [0, 0, 0, 0]\<rparr>"]
    fifo_full_empty_used [of "\<lparr>capacity_mask = 3\<rparr>" "\<lparr>write = 8, read = 4, buf = [0, 0, 0, 0]\<rparr>"]
  by (simp add: fifo_used_eq int_promote_def fifo_capacity_def)

text \<open>
  Claim C3 as stated fails: with capacity 4, write counter 5 and read counter 0 the fifo
  is full although \<^const>\<open>fifo_used\<close> is 5, not the capacity.
\<close>

theorem fifo_full_beyond_capacity:
  "fifo_full \<lparr>capacity_mask = 3\<rparr> \<lparr>write = 5, read = 0, buf = [0, 0, 0, 0]\<rparr> \<and>
   fifo_used \<lparr>capacity_mask = 3\<rparr> \<lparr>write = 5, read = 0, buf = [0, 0, 0, 0]\<rparr> = 5 \<and>
   fifo_capacity \<lparr>capacity_mask = 3\<rparr> = 4"
  by (simp add: fifo_full_def fifo_used_eq int_promote_def fifo_capacity_def)

section \<open>Assertions, frame and bounds of push, peek and pop\<close>

text \<open>
  Claim C5.  For a well-formed handle: when \<^const>\<open>fifo_full\<close> is false
  \<^const>\<open>fifo_push\<close> returns, and when \<^const>\<open>fifo_empty\<close> is false \<^const>\<open>fifo_peek\<close> and
  \<^const>\<open>fifo_pop\<close> return, so the failing branch of the assertion is not taken.  With
  assertions enabled a push to a full fifo and a peek or pop from an empty one stop
  with the assertion's message.  In every case the only way not to return is that fatal
  assertion: what reaches the caller is the plain result, never an error value.
\<close>

theorem fifo_assert_guards:
  assumes "fifo_wf k h f"
  shows "(\<not> fifo_full h f \<longrightarrow> (\<exists>f'. fifo_push asserts h v f = Inr f')) \<and>
     (\<not> fifo_empty h f \<longrightarrow>
        (\<exists>b. fifo_peek asserts h f = Inr (b, f)) \<and>
        (\<exists>b f'. fifo_pop asserts h f = Inr (b, f'))) \<and>
     (fifo_full h f \<longrightarrow> fifo_push True h v f = Inl (Assert_Failed ''push to full fifo'')) \<and>
     (fifo_empty h f \<longrightarrow>
        fifo_peek True h f = Inl (Assert_Failed ''peek from empty fifo'') \<and>
        fifo_pop True h f = Inl (Assert_Failed ''pop from empty fifo'')) \<and>
     (\<forall>e. fifo_push asserts h v f = Inl e \<longrightarrow>
        e = Assert_Failed ''push to full fifo'' \<and> asserts \<and> fifo_full h f) \<and>
     (\<forall>e. fifo_peek asserts h f = Inl e \<longrightarrow>
        e = Assert_Failed ''peek from empty fifo'' \<and> asserts \<and> fifo_empty h f) \<and>
     (\<forall>e. fifo_pop asserts h f = Inl e \<longrightarrow>
        e = Assert_Failed ''pop from empty fifo'' \<and> asserts \<and> fifo_empty h f)"
proof -
  have w: "unat (fifo_offset h (write f)) < length (buf f)"
    and r: "unat (fifo_offset h (read f)) < length (buf f)"
    using assms by (rule offset_in_bounds)+
  show ?thesis
    using w r by (simp add: fifo_push_def fifo_peek_def fifo_pop_def Let_def)
qed

theorem fifo_assert_guards_witness:
  "fifo_wf 2 \<lparr>capacity_mask = 3\<rparr> \<lparr>write = 6, read = 5, buf = [1, 2, 3, 4]\<rparr> \<and>
   \<not> fifo_full \<lparr>capacity_mask = 3\<rparr> \<lparr>write = 6, read = 5, buf = [1, 2, 3, 4]\<rparr> \<and>
   \<not> fifo_empty \<lparr>capacity_mask = 3\<rparr> \<lparr>write = 6, read = 5, buf = [1, 2, 3, 4]\<rparr> \<and>
   fifo_push True \<lparr>capacity_mask = 3\<rparr> 9 \<lparr>write = 6, read = 5, buf = [1, 2, 3, 4]\<rparr> =
     Inr \<lparr>write = 7, read = 5, buf = [1, 2, 9, 4]\<rparr> \<and>
   fifo_peek True \<lparr>capacity_mask = 3\<rparr> \<lparr>write = 6, read = 5, buf = [1, 2, 3, 4]\<rparr> =
     Inr (2, \<lparr>write = 6, read = 5, buf = [1, 2, 3, 4]\<rparr>) \<and>
   fifo_pop True \<lparr>capacity_mask = 3\<rparr> \<lparr>write = 6, read = 5, buf = [1, 2, 3, 4]\<rparr> =
     Inr (2, \<lparr>write = 6, read = 6, buf = [1, 2, 3, 4]\<rparr>) \<and>
   fifo_full \<lparr>capacity_mask = 3\<rparr> \<lparr>write = 9, read = 5, buf = [1, 2, 3, 4]\<rparr> \<and>
   fifo_push True \<lparr>capacity_mask = 3\<rparr> 9 \<lparr>write = 9, read = 5, buf = [1, 2, 3, 4]\<rparr> =
     Inl (Assert_Failed ''push to full fifo'') \<and>
   fifo_empty \<lparr>capacity_mask = 3\<rparr> \<lparr>write = 5, read = 5, buf = [1, 2, 3, 4]\<rparr> \<and>
   fifo_pop True \<lparr>capacity_mask = 3\<rparr> \<lparr>write = 5, read = 5, buf = [1, 2, 3, 4]\<rparr> =
     Inl (Assert_Failed ''pop from empty fifo'') \<and>
   fifo_peek True \<lparr>capacity_mask = 3\<rparr> \<lparr>write = 5, read = 5, buf = [1, 2, 3, 4]\<rparr> =
     Inl (Assert_Failed ''peek from empty fifo'')"
proof -
  let ?h = "\<lparr>capacity_mask = 3\<rparr>"
  have wf: "fifo_wf 2 ?h \<lparr>write = w, read = r, buf = [1, 2, 3, 4]\<rparr>" for w r
    by (simp add: fifo_wf_def)
  have nf: "\<not> fifo_full ?h \<lparr>write = 6, read = 5, buf = [1, 2, 3, 4]\<rparr>"
    and ne: "\<not> fifo_empty ?h \<lparr>write = 6, read = 5, buf = [1, 2, 3, 4]\<rparr>"
    and fu: "fifo_full ?h \<lparr>write = 9, read = 5, buf = [1, 2, 3, 4]\<rparr>"
    and em: "fifo_empty ?h \<lparr>write = 5, read = 5, buf = [1, 2, 3, 4]\<rparr>"
    by (simp_all add: fifo_eval)
  have push: "fifo_push True ?h 9 \<lparr>write = 6, read = 5, buf = [1, 2, 3, 4]\<rparr> =
      Inr \<lparr>write = 7, read = 5, buf = [1, 2, 9, 4]\<rparr>"
    by (simp add: fifo_push_wf [OF wf] nf fifo_offset_eq)
  have peek: "fifo_peek True ?h \<lparr>write = 6, read = 5, buf = [1, 2, 3, 4]\<rparr> =
      Inr (2, \<lparr>write = 6, read = 5, buf = [1, 2, 3, 4]\<rparr>)"
    by (simp add: fifo_peek_wf [OF wf] ne fifo_offset_eq)
  have pop: "fifo_pop True ?h \<lparr>write = 6, read = 5, buf = [1, 2, 3, 4]\<rparr> =
      Inr (2, \<lparr>write = 6, read = 6, buf = [1, 2, 3, 4]\<rparr>)"
    by (simp add: fifo_pop_wf [OF wf] ne fifo_offset_eq)
  from fifo_assert_guards [OF wf, of 9 5 True 9] fu
  have a: "fifo_push True ?h 9 \<lparr>write = 9, read = 5, buf = [1, 2, 3, 4]\<rparr> =
      Inl (Assert_Failed ''push to full fifo'')"
    by blast
  from fifo_assert_guards [OF wf, of 5 5 True 9] em
  have b: "fifo_pop True ?h \<lparr>write = 5, read = 5, buf = [1, 2, 3, 4]\<rparr> =
      Inl (Assert_Failed ''pop from empty fifo'')"
    and c: "fifo_peek True ?h \<lparr>write = 5, read = 5, buf = [1, 2, 3, 4]\<rparr> =
      Inl (Assert_Failed ''peek from empty fifo'')"
    by blast+
  from fifo_assert_guards [OF wf, of 6 5 True 9] nf
  have "\<exists>f'. fifo_push True ?h 9 \<lparr>write = 6, read = 5, buf = [1, 2, 3, 4]\<rparr> = Inr f'"
    by blast
  with wf nf ne fu em push peek pop a b c show ?thesis
    by (intro conjI)
qed

text \<open>
  Claim C6.  For a well-formed handle and a fifo that is not full, \<^const>\<open>fifo_push\<close>
  returns the fifo with the write counter one higher and the byte at offset
  \<open>write AND capacity_mask\<close> replaced by the pushed value: the read counter and every
  other byte are as before.  For a fifo that is not empty, \<^const>\<open>fifo_pop\<close> returns the
  fifo with the read counter one higher: the write counter and all bytes are as
  before.
\<close>

theorem fifo_push_pop_frame:
  assumes "fifo_wf k h f"
  shows "(\<not> fifo_full h f \<longrightarrow>
       fifo_push asserts h v f =
         Inr (f\<lparr>buf := (buf f)[unat (ucast (write f) AND capacity_mask h) := v],
                write := write f + 1\<rparr>)) \<and>
     (\<not> fifo_empty h f \<longrightarrow>
       fifo_pop asserts h f =
         Inr (buf f ! unat (ucast (read f) AND capacity_mask h), f\<lparr>read := read f + 1\<rparr>))"
  using fifo_push_wf [OF assms, of asserts v] fifo_pop_wf [OF assms, of asserts]
  by (simp add: fifo_offset_eq)

theorem fifo_push_pop_frame_witness:
  "fifo_wf 2 \<lparr>capacity_mask = 3\<rparr> \<lparr>write = 65535, read = 65533, buf = [1, 2, 3, 4]\<rparr> \<and>
   \<not> fifo_full \<lparr>capacity_mask = 3\<rparr> \<lparr>write = 65535, read = 65533, buf = [1, 2, 3, 4]\<rparr> \<and>
   \<not> fifo_empty \<lparr>capacity_mask = 3\<rparr> \<lparr>write = 65535, read = 65533, buf = [1, 2, 3, 4]\<rparr> \<and>
   fifo_push True \<lparr>capacity_mask = 3\<rparr> 9 \<lparr>write = 65535, read = 65533, buf = [1, 2, 3, 4]\<rparr> =
     Inr \<lparr>write = 0, read = 65533, buf = [1, 2, 3, 9]\<rparr> \<and>
   fifo_pop True \<lparr>capacity_mask = 3\<rparr> \<lparr>write = 65535, read = 65533, buf = [1, 2, 3, 4]\<rparr> =
     Inr (2, \<lparr>write = 65535, read = 65534, buf = [1, 2, 3, 4]\<rparr>)"
proof -
  let ?h = "\<lparr>capacity_mask = 3\<rparr>"
  let ?f = "\<lparr>write = 65535, read = 65533, buf = [1, 2, 3, 4]\<rparr>"
  have wf: "fifo_wf 2 ?h ?f"
    by (simp add: fifo_wf_def)
  have nf: "\<not> fifo_full ?h ?f" and ne: "\<not> fifo_empty ?h ?f"
    by (simp_all add: fifo_eval)
  from fifo_push_pop_frame [OF wf, of True 9] nf ne
  have "fifo_push True ?h 9 ?f =
      Inr (?f\<lparr>buf := (buf ?f)[unat (ucast (write ?f) AND capacity_mask ?h) := 9],
               write := write ?f + 1\<rparr>)"
    and "fifo_pop True ?h ?f =
      Inr (buf ?f ! unat (ucast (read ?f) AND capacity_mask ?h), ?f\<lparr>read := read ?f + 1\<rparr>)"
    by blast+
  then have "fifo_push True ?h 9 ?f = Inr \<lparr>write = 0, read = 65533, buf = [1, 2, 3, 9]\<rparr>"
    and "fifo_pop True ?h ?f = Inr (2, \<lparr>write = 65535, read = 65534, buf = [1, 2, 3, 4]\<rparr>)"
    by simp_all
  with wf nf ne show ?thesis
    by (intro conjI)
qed

text \<open>
  Every access of \<^const>\<open>fifo_push\<close>, \<^const>\<open>fifo_peek\<close> and \<^const>\<open>fifo_pop\<close> is at the
  offset \<open>index AND capacity_mask\<close>.  For a handle that satisfies the invariant written
  at \<^verbatim>\<open>capacity_mask\<close> this offset is below the capacity and inside the storage for
  every value of the 16-bit index, so none of the three functions leaves the storage,
  whatever the counters are and whether or not assertions are compiled in.  The fifo
  of size 0 is outside that invariant; what happens there is stated with the
  build-time check below.
\<close>

lemma fifo_access_in_bounds:
  assumes "fifo_wf k h f"
  shows "fifo_offset h i = ucast i AND capacity_mask h \<and>
     fifo_offset h i < fifo_capacity h \<and>
     unat (fifo_offset h i) < length (buf f) \<and>
     fifo_push asserts h v f \<noteq> Inl Out_Of_Bounds \<and>
     fifo_peek asserts h f \<noteq> Inl Out_Of_Bounds \<and>
     fifo_pop asserts h f \<noteq> Inl Out_Of_Bounds"
proof (intro conjI)
  show "fifo_offset h i = ucast i AND capacity_mask h"
    by (rule fifo_offset_eq)
  show "fifo_offset h i < fifo_capacity h"
    using assms by (simp add: word_less_nat_alt unat_capacity_wf unat_offset_wf)
  show "unat (fifo_offset h i) < length (buf f)"
    using assms by (rule offset_in_bounds)
  show "fifo_push asserts h v f \<noteq> Inl Out_Of_Bounds"
    using offset_in_bounds [OF assms, of "write f"] by (simp add: fifo_push_def Let_def)
  show "fifo_peek asserts h f \<noteq> Inl Out_Of_Bounds"
    using offset_in_bounds [OF assms, of "read f"] by (simp add: fifo_peek_def Let_def)
  show "fifo_pop asserts h f \<noteq> Inl Out_Of_Bounds"
    using offset_in_bounds [OF assms, of "read f"] by (simp add: fifo_pop_def Let_def)
qed

lemma fifo_access_in_bounds_at_wrap:
  "fifo_wf 2 \<lparr>capacity_mask = 3\<rparr> \<lparr>write = 65535, read = 7, buf = [1, 2, 3, 4]\<rparr> \<and>
   fifo_full \<lparr>capacity_mask = 3\<rparr> \<lparr>write = 65535, read = 7, buf = [1, 2, 3, 4]\<rparr> \<and>
   fifo_offset \<lparr>capacity_mask = 3\<rparr> 65535 = 3 \<and>
   fifo_capacity \<lparr>capacity_mask = 3\<rparr> = 4 \<and>
   fifo_push False \<lparr>capacity_mask = 3\<rparr> 9 \<lparr>write = 65535, read = 7, buf = [1, 2, 3, 4]\<rparr> =
     Inr \<lparr>write = 0, read = 7, buf = [1, 2, 3, 9]\<rparr> \<and>
   fifo_push False \<lparr>capacity_mask = 3\<rparr> 9 \<lparr>write = 65535, read = 7, buf = [1, 2, 3, 4]\<rparr>
     \<noteq> Inl Out_Of_Bounds"
proof -
  let ?h = "\<lparr>capacity_mask = 3\<rparr>"
  let ?f = "\<lparr>write = 65535, read = 7, buf = [1, 2, 3, 4]\<rparr>"
  have wf: "fifo_wf 2 ?h ?f"
    by (simp add: fifo_wf_def)
  have fu: "fifo_full ?h ?f" and off: "fifo_offset ?h 65535 = 3" and cap: "fifo_capacity ?h = 4"
    by (simp_all add: fifo_eval)
  have push: "fifo_push False ?h 9 ?f = Inr \<lparr>write = 0, read = 7, buf = [1, 2, 3, 9]\<rparr>"
    by (simp add: fifo_push_wf [OF wf] fifo_offset_eq)
  from fifo_access_in_bounds [OF wf, of 65535 False 9]
  have "fifo_push False ?h 9 ?f \<noteq> Inl Out_Of_Bounds"
    by blast
  with wf fu off cap push show ?thesis
    by (intro conjI)
qed

section \<open>Peek and the buffered bytes\<close>

text \<open>
  For a well-formed handle and a fifo that is not empty there is at least one byte
  between the read and the write counter; \<^const>\<open>fifo_peek\<close> returns the first of them,
  the head of \<^const>\<open>fifo_contents\<close>, together with the fifo exactly as it was given;
  \<^const>\<open>fifo_pop\<close> called on that fifo returns the same byte, and after it the bytes
  between the counters are the remaining ones.
\<close>

lemma fifo_peek_head:
  assumes "fifo_wf k h f" and "\<not> fifo_empty h f"
  shows "fifo_contents h f \<noteq> [] \<and>
     fifo_peek asserts h f = Inr (hd (fifo_contents h f), f) \<and>
     fifo_pop asserts h f = Inr (hd (fifo_contents h f), f\<lparr>read := read f + 1\<rparr>) \<and>
     fifo_contents h (f\<lparr>read := read f + 1\<rparr>) = tl (fifo_contents h f)"
proof -
  from assms(2) have "write f \<noteq> read f"
    by (simp add: fifo_empty_iff)
  from fifo_contents_pop [OF this, of h] show ?thesis
    using fifo_peek_wf [OF assms(1), of asserts] fifo_pop_wf [OF assms(1), of asserts] assms(2)
    by simp
qed

section \<open>The build-time check of the size\<close>

text \<open>
  The numbers that pass the check \<^verbatim>\<open>(n & (n - 1)) == 0\<close>: a positive one is a power of
  two.
\<close>

lemma pow2_check_nat:
  fixes n :: nat
  shows "0 < n \<Longrightarrow> n AND (n - 1) = 0 \<Longrightarrow> \<exists>k. n = 2 ^ k"
proof (induction n rule: less_induct)
  case (less n)
  have rec: "n AND (n - 1) =
      of_bool (odd n \<and> odd (n - 1)) + 2 * ((n div 2) AND ((n - 1) div 2))"
    by (rule and_rec)
  show ?case
  proof (cases "even n")
    case True
    with less.prems obtain m where m: "n = 2 * m" "0 < m"
      by (auto elim: evenE)
    then have "(n - 1) div 2 = m - 1"
      by (cases m) simp_all
    with rec less.prems(2) m have "m AND (m - 1) = 0"
      by simp
    with less.IH [of m] m obtain j where "m = 2 ^ j"
      by auto
    with m have "n = 2 ^ Suc j"
      by simp
    then show ?thesis
      by blast
  next
    case False
    then obtain m where m: "n = 2 * m + 1"
      by (auto elim: oddE)
    with rec less.prems(2) have "m = 0"
      by simp
    with m have "n = 2 ^ 0"
      by simp
    then show ?thesis
      by blast
  qed
qed

lemma pow2_check_word:
  fixes sz :: size_t
  assumes "sz \<noteq> 0" and "sz AND (sz - 1) = 0"
  shows "\<exists>k<32. sz = 2 ^ k"
proof -
  from assms(1) have pos: "0 < unat sz"
    by (simp add: unat_gt_0)
  have "unat (sz AND (sz - 1)) = unat sz AND (unat sz - 1)"
    using assms(1) by (simp add: unsigned_and_eq unat_minus_one)
  with assms(2) have "unat sz AND (unat sz - 1) = 0"
    by simp
  from pow2_check_nat [OF pos this] obtain k where k: "unat sz = 2 ^ k"
    by blast
  have "unat sz < 2 ^ 32"
    using unsigned_less [of sz] by simp
  with k have "k < 32"
    by (simp only: power_strict_increasing_iff one_less_numeral_iff semiring_norm)
  moreover have "sz = of_nat (unat sz)"
    by simp
  with k have "sz = 2 ^ k"
    by simp
  ultimately show ?thesis
    by blast
qed

lemma pow2_passes_check: "(2 :: size_t) ^ k AND (2 ^ k - 1) = 0"
  by (simp add: take_bit_eq_mod flip: mask_eq_decr_exp take_bit_eq_mask)

text \<open>
  The length of the array for a power of two, and which of them the compiler takes.
\<close>

lemma unat_array_length:
  assumes "k < 32"
  shows "unat (offsetof_buf + 2 ^ k) = 4 + 2 ^ k"
proof -
  from assms have "(2::nat) ^ k \<le> 2 ^ 31"
    by (simp only: power_increasing_iff one_less_numeral_iff semiring_norm)
  then have "4 + (2::nat) ^ k < 2 ^ 32"
    by simp
  then show ?thesis
    by (simp add: offsetof_buf_def unat_word_ariths unat_2p32 [OF assms])
qed

lemma array_fits_iff:
  assumes "k < 32"
  shows "\<not> 2 ^ 31 \<le> unat (offsetof_buf + 2 ^ k) \<longleftrightarrow> k < 31"
proof (cases "k < 31")
  case True
  then have "k \<le> 30"
    by simp
  then have "(2::nat) ^ k \<le> 2 ^ 30"
    by (simp only: power_increasing_iff one_less_numeral_iff semiring_norm)
  with True show ?thesis
    by (simp add: unat_array_length [OF assms])
next
  case False
  with assms have "k = 31"
    by simp
  then show ?thesis
    by (simp add: offsetof_buf_def)
qed

text \<open>
  \<^const>\<open>FIFO_DEFINE\<close> accepts the powers of two up to \<open>2 ^ 30\<close> and 0, and nothing else:
  \<open>2 ^ 31\<close> bytes are too large an array, and every other size fails the check or is
  too large.  Size 5 fails the check.  For an accepted size the handle has the mask
  \<open>size - 1\<close> and \<^const>\<open>fifo_capacity\<close> returns the size; for a power of two the handle and
  the fifo are well-formed.
\<close>

lemma FIFO_DEFINE_accepts_iff:
  "(\<exists>name. FIFO_DEFINE sz = Inr name) \<longleftrightarrow> sz = 0 \<or> (\<exists>k<31. sz = 2 ^ k)"
proof
  assume "\<exists>name. FIFO_DEFINE sz = Inr name"
  then have fits: "\<not> 2 ^ 31 \<le> unat (offsetof_buf + sz)" and chk: "sz AND (sz - 1) = 0"
    by (auto simp: FIFO_DEFINE_def split: if_splits)
  show "sz = 0 \<or> (\<exists>k<31. sz = 2 ^ k)"
  proof (cases "sz = 0")
    case True
    then show ?thesis by simp
  next
    case False
    from pow2_check_word [OF this chk] obtain k where k: "k < 32" "sz = 2 ^ k"
      by blast
    with fits array_fits_iff [OF k(1)] have "k < 31"
      by simp
    with k show ?thesis
      by blast
  qed
next
  assume "sz = 0 \<or> (\<exists>k<31. sz = 2 ^ k)"
  then show "\<exists>name. FIFO_DEFINE sz = Inr name"
  proof
    assume "sz = 0"
    then show ?thesis
      by (simp add: FIFO_DEFINE_def offsetof_buf_def)
  next
    assume "\<exists>k<31. sz = 2 ^ k"
    then obtain k where k: "k < 31" "sz = 2 ^ k"
      by blast
    then have "k < 32"
      by simp
    from array_fits_iff [OF this] k show ?thesis
      by (simp add: FIFO_DEFINE_def pow2_passes_check)
  qed
qed

lemma FIFO_DEFINE_rejects:
  assumes "sz \<noteq> 0" and "\<forall>k<31. sz \<noteq> 2 ^ k"
  shows "FIFO_DEFINE sz = Inl Array_Too_Large \<or>
    FIFO_DEFINE sz = Inl (Build_Assert ''fifo size must be a power of 2'')"
proof -
  from assms FIFO_DEFINE_accepts_iff [of sz] have "\<not> (\<exists>name. FIFO_DEFINE sz = Inr name)"
    by simp
  then show ?thesis
    by (simp add: FIFO_DEFINE_def split: if_splits)
qed

lemma FIFO_DEFINE_too_large: "FIFO_DEFINE (2 ^ 31) = Inl Array_Too_Large"
  by (simp add: FIFO_DEFINE_def offsetof_buf_def)

lemma FIFO_DEFINE_5: "FIFO_DEFINE 5 = Inl (Build_Assert ''fifo size must be a power of 2'')"
  by (simp add: FIFO_DEFINE_def offsetof_buf_def)

lemma FIFO_DEFINE_handle:
  assumes "FIFO_DEFINE sz = Inr name"
  shows "name = \<lparr>write = 0, read = 0, buf = replicate (unat sz) 0\<rparr>"
    and "capacity_mask (FIFO_INITIALIZER name) = sz - 1"
    and "fifo_capacity (FIFO_INITIALIZER name) = sz"
proof -
  from assms show n: "name = \<lparr>write = 0, read = 0, buf = replicate (unat sz) 0\<rparr>"
    by (auto simp: FIFO_DEFINE_def split: if_splits)
  then show "capacity_mask (FIFO_INITIALIZER name) = sz - 1"
    by (simp add: FIFO_INITIALIZER_def FIFO_CAPACITY_def sizeof_name_def)
  then show "fifo_capacity (FIFO_INITIALIZER name) = sz"
    by (simp add: fifo_capacity_def)
qed

lemma FIFO_DEFINE_wf:
  assumes "k < 31"
  shows "FIFO_DEFINE (2 ^ k) = Inr \<lparr>write = 0, read = 0, buf = replicate (2 ^ k) 0\<rparr>"
    and "fifo_wf k (FIFO_INITIALIZER \<lparr>write = 0, read = 0, buf = replicate (2 ^ k) 0\<rparr>)
      \<lparr>write = 0, read = 0, buf = replicate (2 ^ k) 0\<rparr>"
proof -
  from assms have k: "k < 32"
    by simp
  from array_fits_iff [OF k] assms
  show "FIFO_DEFINE (2 ^ k) = Inr \<lparr>write = 0, read = 0, buf = replicate (2 ^ k) 0\<rparr>"
    by (simp add: FIFO_DEFINE_def pow2_passes_check unat_2p32 [OF k])
  from k
  show "fifo_wf k (FIFO_INITIALIZER \<lparr>write = 0, read = 0, buf = replicate (2 ^ k) 0\<rparr>)
      \<lparr>write = 0, read = 0, buf = replicate (2 ^ k) 0\<rparr>"
    by (simp add: unat_2p32 fifo_wf_def FIFO_INITIALIZER_def FIFO_CAPACITY_def sizeof_name_def)
qed

text \<open>
  Claim C8 at size 0.  The claim has every size that is not a power of two rejected by
  the build-time assertion, whose message is ``fifo size must be a power of 2''.  The
  number 0 is not a power of two, and \<^const>\<open>FIFO_DEFINE\<close> accepts it.
\<close>

theorem FIFO_DEFINE_accepts_zero:
  "FIFO_DEFINE 0 = Inr \<lparr>write = 0, read = 0, buf = []\<rparr> \<and> (\<forall>k. unat (0 :: size_t) \<noteq> 2 ^ k)"
  by (simp add: FIFO_DEFINE_def offsetof_buf_def)

text \<open>
  Claim C10 at the fifo of size 0.  The claim has every offset \<open>index AND capacity_mask\<close>
  below the capacity and every access inside the storage, in all states and also when
  the preconditions are violated.  \<^const>\<open>FIFO_DEFINE\<close> accepts size 0; the fifo then has
  no storage, its mask is all ones and its capacity is 0, so that no offset is below
  the capacity, and with assertions compiled out a push, a peek and a pop all access
  the byte at offset 0, behind the storage.
\<close>

theorem fifo_size_zero_out_of_bounds:
  "FIFO_DEFINE 0 = Inr \<lparr>write = 0, read = 0, buf = []\<rparr> \<and>
   FIFO_INITIALIZER \<lparr>write = 0, read = 0, buf = []\<rparr> = \<lparr>capacity_mask = 4294967295\<rparr> \<and>
   fifo_capacity \<lparr>capacity_mask = 4294967295\<rparr> = 0 \<and>
   fifo_offset \<lparr>capacity_mask = 4294967295\<rparr> 0 = 0 \<and>
   \<not> fifo_offset \<lparr>capacity_mask = 4294967295\<rparr> 0 < fifo_capacity \<lparr>capacity_mask = 4294967295\<rparr> \<and>
   fifo_push False \<lparr>capacity_mask = 4294967295\<rparr> 7 \<lparr>write = 0, read = 0, buf = []\<rparr> =
     Inl Out_Of_Bounds \<and>
   fifo_peek False \<lparr>capacity_mask = 4294967295\<rparr> \<lparr>write = 0, read = 0, buf = []\<rparr> =
     Inl Out_Of_Bounds \<and>
   fifo_pop False \<lparr>capacity_mask = 4294967295\<rparr> \<lparr>write = 0, read = 0, buf = []\<rparr> =
     Inl Out_Of_Bounds"
  by (simp add: FIFO_DEFINE_def offsetof_buf_def FIFO_INITIALIZER_def FIFO_CAPACITY_def
      sizeof_name_def fifo_capacity_def fifo_offset_eq fifo_push_def fifo_peek_def fifo_pop_def)

text \<open>
  Claim C9.  Size 0 satisfies the check \<^verbatim>\<open>((size) & ((size)-1)) == 0\<close>, so
  \<^const>\<open>FIFO_DEFINE\<close> accepts it and yields a fifo without storage.  The handle
  initialised for it has the mask \<open>0 - 1\<close>, all 32 bits set, and \<^const>\<open>fifo_capacity\<close>
  of that handle is 0.
\<close>

theorem FIFO_DEFINE_zero:
  "(0 :: size_t) AND (0 - 1) = 0 \<and>
   FIFO_DEFINE 0 = Inr \<lparr>write = 0, read = 0, buf = []\<rparr> \<and>
   capacity_mask (FIFO_INITIALIZER \<lparr>write = 0, read = 0, buf = []\<rparr>) = 0 - 1 \<and>
   capacity_mask (FIFO_INITIALIZER \<lparr>write = 0, read = 0, buf = []\<rparr>) = 4294967295 \<and>
   NOT (capacity_mask (FIFO_INITIALIZER \<lparr>write = 0, read = 0, buf = []\<rparr>)) = 0 \<and>
   fifo_capacity (FIFO_INITIALIZER \<lparr>write = 0, read = 0, buf = []\<rparr>) = 0"
  by (simp add: FIFO_DEFINE_def offsetof_buf_def FIFO_INITIALIZER_def FIFO_CAPACITY_def
      sizeof_name_def fifo_capacity_def)

section \<open>Sequences of pushes and pops\<close>

lemma unat16_diff:
  fixes w r :: u16_t
  assumes "unat r \<le> unat w"
  shows "unat (w - r) = unat w - unat r"
  using assms by (simp add: unat_sub word_le_nat_alt)

text \<open>
  The invariant of a disciplined run on a fifo of capacity at most \<open>2 ^ 15\<close>: the run
  returns, and the bytes buffered before it followed by the bytes it pushes are the
  bytes it pops followed by the bytes buffered after it.
\<close>

lemma fifo_run_order:
  assumes k: "k \<le> 15"
  shows "fifo_wf k h f \<Longrightarrow> disciplined h ops f \<Longrightarrow>
    \<exists>f' out. fifo_run asserts h ops f = Inr (f', out) \<and> fifo_wf k h f' \<and>
      fifo_contents h f @ pushed ops = out @ fifo_contents h f'"
proof (induction ops arbitrary: f)
  case Nil
  then show ?case by simp
next
  case (Cons op ops)
  show ?case
  proof (cases op)
    case (Push v)
    let ?f1 = "f\<lparr>buf := (buf f)[unat (fifo_offset h (write f)) := v], write := write f + 1\<rparr>"
    from Cons.prems Push have nf: "\<not> fifo_full h f"
      by simp
    have p: "fifo_push a h v f = Inr ?f1" for a
      using fifo_push_wf [OF Cons.prems(1), of a v] nf by simp
    from Cons.prems Push p [of False] have d: "disciplined h ops ?f1"
      by simp
    have wf1: "fifo_wf k h ?f1"
      using Cons.prems(1) by (simp add: fifo_wf_def)
    from nf have "unat (read f) \<le> unat (write f)"
      and "unat (write f) - unat (read f) < 2 ^ k"
      by (simp_all add: not_full_wf [OF Cons.prems(1)])
    then have "unat (write f - read f) < 2 ^ k"
      by (simp add: unat16_diff)
    from fifo_contents_push [OF Cons.prems(1) k this]
    have c: "fifo_contents h ?f1 = fifo_contents h f @ [v]" .
    from Cons.IH [OF wf1 d] obtain f' out where
      "fifo_run asserts h ops ?f1 = Inr (f', out)" "fifo_wf k h f'"
      "fifo_contents h ?f1 @ pushed ops = out @ fifo_contents h f'"
      by blast
    then show ?thesis
      using Push p [of asserts] c by simp
  next
    case Pop
    let ?f1 = "f\<lparr>read := read f + 1\<rparr>"
    let ?b = "buf f ! unat (fifo_offset h (read f))"
    from Cons.prems Pop have ne: "\<not> fifo_empty h f"
      by simp
    have p: "fifo_pop a h f = Inr (?b, ?f1)" for a
      using fifo_pop_wf [OF Cons.prems(1), of a] ne by simp
    from Cons.prems Pop p [of False] have d: "disciplined h ops ?f1"
      by simp
    have wf1: "fifo_wf k h ?f1"
      using Cons.prems(1) by simp
    from ne have "write f \<noteq> read f"
      by (simp add: fifo_empty_iff)
    from fifo_contents_pop [OF this, of h]
    have c: "fifo_contents h f = ?b # fifo_contents h ?f1" .
    from Cons.IH [OF wf1 d] obtain f' out where
      "fifo_run asserts h ops ?f1 = Inr (f', out)" "fifo_wf k h f'"
      "fifo_contents h ?f1 @ pushed ops = out @ fifo_contents h f'"
      by blast
    then show ?thesis
      using Pop p [of asserts] c by simp
  qed
qed

lemma fifo_contents_empty: "fifo_empty h f \<Longrightarrow> fifo_contents h f = []"
  by (simp add: fifo_empty_iff fifo_contents_def)

lemma fifo_run_append:
  "fifo_run a h (xs @ ys) f =
     (case fifo_run a h xs f of
        Inl e \<Rightarrow> Inl e
      | Inr (f1, o1) \<Rightarrow>
          (case fifo_run a h ys f1 of
             Inl e \<Rightarrow> Inl e
           | Inr (f2, o2) \<Rightarrow> Inr (f2, o1 @ o2)))"
proof (induction xs arbitrary: f)
  case Nil
  show ?case by (simp split: sum.split)
next
  case (Cons op xs)
  show ?case
    by (cases op) (simp_all add: Cons.IH split: sum.split prod.split)
qed

text \<open>
  On a well-formed handle a sequence is disciplined exactly when the run with
  assertions enabled goes through.
\<close>

lemma disciplined_iff_run:
  "fifo_wf k h f \<Longrightarrow> disciplined h ops f \<longleftrightarrow> \<not> isl (fifo_run True h ops f)"
proof (induction ops arbitrary: f)
  case Nil
  show ?case by simp
next
  case (Cons op ops)
  show ?case
  proof (cases op)
    case (Push v)
    show ?thesis
    proof (cases "fifo_full h f")
      case True
      then show ?thesis
        using Push by (simp add: fifo_push_def)
    next
      case False
      let ?f1 = "f\<lparr>buf := (buf f)[unat (fifo_offset h (write f)) := v], write := write f + 1\<rparr>"
      have p: "fifo_push a h v f = Inr ?f1" for a
        using fifo_push_wf [OF Cons.prems, of a v] False by simp
      have "fifo_wf k h ?f1"
        using Cons.prems by (simp add: fifo_wf_def)
      from Cons.IH [OF this] show ?thesis
        using Push False by (simp add: p)
    qed
  next
    case Pop
    show ?thesis
    proof (cases "fifo_empty h f")
      case True
      then show ?thesis
        using Pop by (simp add: fifo_pop_def)
    next
      case False
      let ?f1 = "f\<lparr>read := read f + 1\<rparr>"
      have p: "fifo_pop a h f = Inr (buf f ! unat (fifo_offset h (read f)), ?f1)" for a
        using fifo_pop_wf [OF Cons.prems, of a] False by simp
      have "fifo_wf k h ?f1"
        using Cons.prems by simp
      from Cons.IH [OF this] show ?thesis
        using Pop False by (simp add: p split: sum.split)
    qed
  qed
qed

text \<open>
  A fifo of capacity \<open>2 ^ 16\<close> with read counter 0: it is never full, and pushing
  zeros into its zeroed storage only moves the write counter.
\<close>

lemma replicate_update_same: "(replicate n x)[i := x] = replicate n x"
  by (induction n arbitrary: i) (simp_all split: nat.split)

lemma u16_wrap: "(65536 :: u16_t) = 0"
  by simp

lemma wf_64k: "fifo_wf 16 \<lparr>capacity_mask = 65535\<rparr> \<lparr>write = w, read = r, buf = replicate 65536 0\<rparr>"
  by (simp add: fifo_wf_def)

lemma not_full_64k:
  "\<not> fifo_full \<lparr>capacity_mask = 65535\<rparr> \<lparr>write = w, read = 0, buf = replicate 65536 0\<rparr>"
  using unat16_less [of w] by (simp add: not_full_wf [OF wf_64k])

lemma push_zeros_64k:
  "fifo_run a \<lparr>capacity_mask = 65535\<rparr> (replicate n (Push 0))
     \<lparr>write = w, read = 0, buf = replicate 65536 0\<rparr> =
   Inr (\<lparr>write = w + of_nat n, read = 0, buf = replicate 65536 0\<rparr>, [])"
proof (induction n arbitrary: w)
  case 0
  show ?case by simp
next
  case (Suc n)
  have "fifo_push a \<lparr>capacity_mask = 65535\<rparr> 0 \<lparr>write = w, read = 0, buf = replicate 65536 0\<rparr> =
      Inr \<lparr>write = w + 1, read = 0, buf = replicate 65536 0\<rparr>"
    using not_full_64k [of w]
    by (simp add: fifo_push_wf [OF wf_64k] replicate_update_same)
  then show ?case
    by (simp add: Suc.IH add.assoc)
qed


lemma pushed_replicate [simp]: "pushed (replicate n (Push v) @ ops) = replicate n v @ pushed ops"
  by (induction n) simp_all

text \<open>
  Claim C2, for capacities up to \<open>2 ^ 15\<close>.  On a well-formed handle of capacity
  \<open>2 ^ k\<close> with \<open>k \<le> 15\<close>, every disciplined sequence of pushes and pops that starts
  from an empty fifo runs to its end, and the bytes it pops are, in order, the first
  of the bytes it pushes: the n-th popped byte is the n-th pushed byte.
\<close>

theorem fifo_order:
  assumes "k \<le> 15" and "fifo_wf k h f" and "fifo_empty h f" and "disciplined h ops f"
  shows "\<exists>f' out. fifo_run asserts h ops f = Inr (f', out) \<and>
     length out \<le> length (pushed ops) \<and>
     (\<forall>n < length out. out ! n = pushed ops ! n)"
proof -
  from fifo_run_order [OF assms(1,2,4), of asserts] obtain f' out where
    run: "fifo_run asserts h ops f = Inr (f', out)"
    and eq: "fifo_contents h f @ pushed ops = out @ fifo_contents h f'"
    by blast
  from eq assms(3) have p: "pushed ops = out @ fifo_contents h f'"
    by (simp add: fifo_contents_empty)
  then have "length out \<le> length (pushed ops)"
    and "\<forall>n < length out. out ! n = pushed ops ! n"
    by (simp_all add: nth_append)
  with run show ?thesis
    by blast
qed

theorem fifo_order_witness:
  "(2::nat) \<le> 15 \<and>
   fifo_wf 2 \<lparr>capacity_mask = 3\<rparr> \<lparr>write = 65534, read = 65534, buf = [0, 0, 0, 0]\<rparr> \<and>
   fifo_empty \<lparr>capacity_mask = 3\<rparr> \<lparr>write = 65534, read = 65534, buf = [0, 0, 0, 0]\<rparr> \<and>
   disciplined \<lparr>capacity_mask = 3\<rparr> [Push 7, Push 8, Pop, Pop]
     \<lparr>write = 65534, read = 65534, buf = [0, 0, 0, 0]\<rparr> \<and>
   fifo_run True \<lparr>capacity_mask = 3\<rparr> [Push 7, Push 8, Pop, Pop]
     \<lparr>write = 65534, read = 65534, buf = [0, 0, 0, 0]\<rparr> =
     Inr (\<lparr>write = 0, read = 0, buf = [0, 0, 7, 8]\<rparr>, [7, 8]) \<and>
   pushed [Push 7, Push 8, Pop, Pop] = [7, 8]"
proof -
  let ?h = "\<lparr>capacity_mask = 3\<rparr>"
  let ?f = "\<lparr>write = 65534, read = 65534, buf = [0, 0, 0, 0]\<rparr>"
  let ?ops = "[Push 7, Push 8, Pop, Pop]"
  have k: "(2::nat) \<le> 15"
    by simp
  have wf: "fifo_wf 2 ?h ?f"
    by (simp add: fifo_wf_def)
  have em: "fifo_empty ?h ?f"
    by (simp add: fifo_empty_iff)
  have run: "fifo_run True ?h ?ops ?f = Inr (\<lparr>write = 0, read = 0, buf = [0, 0, 7, 8]\<rparr>, [7, 8])"
    by (simp add: fifo_push_def fifo_pop_def fifo_eval)
  have di: "disciplined ?h ?ops ?f"
    unfolding disciplined_iff_run [OF wf] run by simp
  from fifo_order [OF k wf em di, of True] run
  have "length [7, 8 :: u8_t] \<le> length (pushed ?ops) \<and>
      (\<forall>n < length [7, 8 :: u8_t]. [7, 8 :: u8_t] ! n = pushed ?ops ! n)"
    by simp
  then have "pushed ?ops = [7, 8]"
    by simp
  with k wf em di run show ?thesis
    by (intro conjI)
qed

text \<open>
  Claim C2 as stated fails for a fifo of \<open>2 ^ 16\<close> bytes, a size that \<^const>\<open>FIFO_DEFINE\<close>
  accepts.  After 65536 pushes of the byte 0 the 16-bit write counter is 0 again; a
  push of the byte 1 then overwrites the first byte, and the first pop returns 1,
  while the first pushed byte was 0.  No push met a full fifo and the pop did not meet
  an empty one.
\<close>

theorem fifo_order_lost_at_64k:
  "FIFO_DEFINE 65536 = Inr \<lparr>write = 0, read = 0, buf = replicate 65536 0\<rparr> \<and>
   FIFO_INITIALIZER \<lparr>write = 0, read = 0, buf = replicate 65536 0\<rparr> = \<lparr>capacity_mask = 65535\<rparr> \<and>
   fifo_empty \<lparr>capacity_mask = 65535\<rparr> \<lparr>write = 0, read = 0, buf = replicate 65536 0\<rparr> \<and>
   disciplined \<lparr>capacity_mask = 65535\<rparr> (replicate 65536 (Push 0) @ [Push 1, Pop])
     \<lparr>write = 0, read = 0, buf = replicate 65536 0\<rparr> \<and>
   fifo_run True \<lparr>capacity_mask = 65535\<rparr> (replicate 65536 (Push 0) @ [Push 1, Pop])
     \<lparr>write = 0, read = 0, buf = replicate 65536 0\<rparr> =
     Inr (\<lparr>write = 1, read = 1, buf = (replicate 65536 0)[0 := 1]\<rparr>, [1]) \<and>
   pushed (replicate 65536 (Push 0) @ [Push 1, Pop]) ! 0 = 0"
proof -
  let ?h = "\<lparr>capacity_mask = 65535\<rparr>"
  let ?f0 = "\<lparr>write = 0, read = 0, buf = replicate 65536 0\<rparr>"
  let ?ops = "replicate 65536 (Push 0) @ [Push 1, Pop]"
  have def: "FIFO_DEFINE 65536 = Inr ?f0"
    by (simp add: FIFO_DEFINE_def offsetof_buf_def)
  have ini: "FIFO_INITIALIZER ?f0 = ?h"
    by (simp add: FIFO_INITIALIZER_def FIFO_CAPACITY_def sizeof_name_def)
  have em: "fifo_empty ?h ?f0"
    by (simp add: fifo_empty_iff)
  have push: "fifo_push True ?h 1 ?f0 = Inr \<lparr>write = 1, read = 0, buf = (replicate 65536 0)[0 := 1]\<rparr>"
    using not_full_64k [of 0] by (simp add: fifo_push_wf [OF wf_64k] fifo_offset_eq)
  have wf1: "fifo_wf 16 ?h \<lparr>write = 1, read = 0, buf = (replicate 65536 0)[0 := 1]\<rparr>"
    by (simp add: fifo_wf_def)
  have pop: "fifo_pop True ?h \<lparr>write = 1, read = 0, buf = (replicate 65536 0)[0 := 1]\<rparr> =
      Inr (1, \<lparr>write = 1, read = 1, buf = (replicate 65536 0)[0 := 1]\<rparr>)"
    by (simp add: fifo_pop_wf [OF wf1] fifo_empty_iff fifo_offset_eq)
  have run: "fifo_run True ?h ?ops ?f0 =
      Inr (\<lparr>write = 1, read = 1, buf = (replicate 65536 0)[0 := 1]\<rparr>, [1])"
    by (simp add: fifo_run_append push_zeros_64k u16_wrap push pop)
  then have di: "disciplined ?h ?ops ?f0"
    by (simp add: disciplined_iff_run [OF wf_64k])
  have first: "pushed ?ops ! 0 = 0"
    by (simp add: nth_append)
  from def ini em di run first show ?thesis
    by (intro conjI)
qed

text \<open>
  Claim C7, for capacities up to \<open>2 ^ 15\<close>.  Take a well-formed handle of capacity
  \<open>2 ^ k\<close> with \<open>k \<le> 15\<close> and any disciplined sequence of pushes and pops that starts
  from an empty fifo.  The sequence runs to its end, and if the fifo it leaves is not
  empty, then fewer bytes were popped than pushed, \<^const>\<open>fifo_peek\<close> returns the oldest
  buffered byte, that is the first pushed byte that has not been popped, together with
  the fifo exactly as it was given, and \<^const>\<open>fifo_pop\<close> called on that fifo returns the
  same byte.
\<close>

theorem fifo_peek_oldest:
  assumes "k \<le> 15" and "fifo_wf k h g" and "fifo_empty h g" and "disciplined h ops g"
  shows "\<exists>f out. fifo_run asserts h ops g = Inr (f, out) \<and>
     (\<not> fifo_empty h f \<longrightarrow>
        length out < length (pushed ops) \<and>
        fifo_peek a h f = Inr (pushed ops ! length out, f) \<and>
        fifo_pop a h f = Inr (pushed ops ! length out, f\<lparr>read := read f + 1\<rparr>))"
proof -
  from fifo_run_order [OF assms(1,2,4), of asserts] obtain f out where
    run: "fifo_run asserts h ops g = Inr (f, out)" and wf: "fifo_wf k h f"
    and eq: "fifo_contents h g @ pushed ops = out @ fifo_contents h f"
    by blast
  from eq assms(3) have p: "pushed ops = out @ fifo_contents h f"
    by (simp add: fifo_contents_empty)
  have "length out < length (pushed ops) \<and>
      fifo_peek a h f = Inr (pushed ops ! length out, f) \<and>
      fifo_pop a h f = Inr (pushed ops ! length out, f\<lparr>read := read f + 1\<rparr>)"
    if ne: "\<not> fifo_empty h f"
  proof -
    from fifo_peek_head [OF wf ne, of a]
    have c: "fifo_contents h f \<noteq> []"
      and peek: "fifo_peek a h f = Inr (hd (fifo_contents h f), f)"
      and pop: "fifo_pop a h f = Inr (hd (fifo_contents h f), f\<lparr>read := read f + 1\<rparr>)"
      by blast+
    from c have "pushed ops ! length out = hd (fifo_contents h f)"
      by (simp add: p nth_append hd_conv_nth)
    moreover from c have "length out < length (pushed ops)"
      by (simp add: p)
    ultimately show ?thesis
      using peek pop by simp
  qed
  with run show ?thesis
    by blast
qed

theorem fifo_peek_oldest_witness:
  "(2::nat) \<le> 15 \<and>
   fifo_wf 2 \<lparr>capacity_mask = 3\<rparr> \<lparr>write = 65534, read = 65534, buf = [0, 0, 0, 0]\<rparr> \<and>
   fifo_empty \<lparr>capacity_mask = 3\<rparr> \<lparr>write = 65534, read = 65534, buf = [0, 0, 0, 0]\<rparr> \<and>
   disciplined \<lparr>capacity_mask = 3\<rparr> [Push 7, Push 8, Pop]
     \<lparr>write = 65534, read = 65534, buf = [0, 0, 0, 0]\<rparr> \<and>
   fifo_run True \<lparr>capacity_mask = 3\<rparr> [Push 7, Push 8, Pop]
     \<lparr>write = 65534, read = 65534, buf = [0, 0, 0, 0]\<rparr> =
     Inr (\<lparr>write = 0, read = 65535, buf = [0, 0, 7, 8]\<rparr>, [7]) \<and>
   \<not> fifo_empty \<lparr>capacity_mask = 3\<rparr> \<lparr>write = 0, read = 65535, buf = [0, 0, 7, 8]\<rparr> \<and>
   pushed [Push 7, Push 8, Pop] = [7, 8] \<and>
   fifo_peek True \<lparr>capacity_mask = 3\<rparr> \<lparr>write = 0, read = 65535, buf = [0, 0, 7, 8]\<rparr> =
     Inr (8, \<lparr>write = 0, read = 65535, buf = [0, 0, 7, 8]\<rparr>) \<and>
   fifo_pop True \<lparr>capacity_mask = 3\<rparr> \<lparr>write = 0, read = 65535, buf = [0, 0, 7, 8]\<rparr> =
     Inr (8, \<lparr>write = 0, read = 0, buf = [0, 0, 7, 8]\<rparr>)"
proof -
  let ?h = "\<lparr>capacity_mask = 3\<rparr>"
  let ?g = "\<lparr>write = 65534, read = 65534, buf = [0, 0, 0, 0]\<rparr>"
  let ?e = "\<lparr>write = 0, read = 65535, buf = [0, 0, 7, 8]\<rparr>"
  let ?ops = "[Push 7, Push 8, Pop]"
  have k: "(2::nat) \<le> 15"
    by simp
  have wf: "fifo_wf 2 ?h ?g"
    by (simp add: fifo_wf_def)
  have em: "fifo_empty ?h ?g"
    by (simp add: fifo_empty_iff)
  have run: "fifo_run True ?h ?ops ?g = Inr (?e, [7])"
    by (simp add: fifo_push_def fifo_pop_def fifo_eval)
  have di: "disciplined ?h ?ops ?g"
    unfolding disciplined_iff_run [OF wf] run by simp
  have ne: "\<not> fifo_empty ?h ?e"
    by (simp add: fifo_empty_iff)
  have pu: "pushed ?ops = [7, 8]"
    by simp
  from fifo_peek_oldest [OF k wf em di, of True True] run ne
  have "fifo_peek True ?h ?e = Inr (pushed ?ops ! length [7 :: u8_t], ?e)"
    and "fifo_pop True ?h ?e =
      Inr (pushed ?ops ! length [7 :: u8_t], ?e\<lparr>read := read ?e + 1\<rparr>)"
    by auto
  then have "fifo_peek True ?h ?e = Inr (8, ?e)"
    and "fifo_pop True ?h ?e = Inr (8, \<lparr>write = 0, read = 0, buf = [0, 0, 7, 8]\<rparr>)"
    by simp_all
  with k wf em di run ne pu show ?thesis
    by (intro conjI)
qed

text \<open>
  Claim C7 as stated fails for a fifo of \<open>2 ^ 16\<close> bytes.  After 65536 pushes of the
  byte 0 and one push of the byte 1, none of which met a full fifo, nothing has been
  popped and the oldest pushed byte is 0; the fifo is not empty, and
  \<^const>\<open>fifo_peek\<close> returns 1, the newest byte.
\<close>

theorem fifo_peek_newest_at_64k:
  "fifo_empty \<lparr>capacity_mask = 65535\<rparr> \<lparr>write = 0, read = 0, buf = replicate 65536 0\<rparr> \<and>
   disciplined \<lparr>capacity_mask = 65535\<rparr> (replicate 65536 (Push 0) @ [Push 1])
     \<lparr>write = 0, read = 0, buf = replicate 65536 0\<rparr> \<and>
   fifo_run True \<lparr>capacity_mask = 65535\<rparr> (replicate 65536 (Push 0) @ [Push 1])
     \<lparr>write = 0, read = 0, buf = replicate 65536 0\<rparr> =
     Inr (\<lparr>write = 1, read = 0, buf = (replicate 65536 0)[0 := 1]\<rparr>, []) \<and>
   \<not> fifo_empty \<lparr>capacity_mask = 65535\<rparr>
     \<lparr>write = 1, read = 0, buf = (replicate 65536 0)[0 := 1]\<rparr> \<and>
   fifo_peek True \<lparr>capacity_mask = 65535\<rparr>
     \<lparr>write = 1, read = 0, buf = (replicate 65536 0)[0 := 1]\<rparr> =
     Inr (1, \<lparr>write = 1, read = 0, buf = (replicate 65536 0)[0 := 1]\<rparr>) \<and>
   pushed (replicate 65536 (Push 0) @ [Push 1]) ! 0 = 0"
proof -
  let ?h = "\<lparr>capacity_mask = 65535\<rparr>"
  let ?g = "\<lparr>write = 0, read = 0, buf = replicate 65536 0\<rparr>"
  let ?e = "\<lparr>write = 1, read = 0, buf = (replicate 65536 0)[0 := 1]\<rparr>"
  let ?ops = "replicate 65536 (Push 0) @ [Push 1]"
  have em: "fifo_empty ?h ?g"
    by (simp add: fifo_empty_iff)
  have push: "fifo_push True ?h 1 ?g = Inr ?e"
    using not_full_64k [of 0] by (simp add: fifo_push_wf [OF wf_64k] fifo_offset_eq)
  have run: "fifo_run True ?h ?ops ?g = Inr (?e, [])"
    by (simp add: fifo_run_append push_zeros_64k u16_wrap push)
  have di: "disciplined ?h ?ops ?g"
    unfolding disciplined_iff_run [OF wf_64k] run by simp
  have wfe: "fifo_wf 16 ?h ?e"
    by (simp add: fifo_wf_def)
  have ne: "\<not> fifo_empty ?h ?e"
    by (simp add: fifo_empty_iff)
  have peek: "fifo_peek True ?h ?e = Inr (1, ?e)"
    using ne by (simp add: fifo_peek_wf [OF wfe] fifo_offset_eq)
  have first: "pushed ?ops ! 0 = 0"
    by (simp add: nth_append)
  from em di run ne peek first show ?thesis
    by (intro conjI)
qed

lemma unat16_add:
  fixes w :: u16_t
  assumes "unat w + n < 65536"
  shows "unat (w + of_nat n) = unat w + n"
proof -
  have "unat (w + of_nat n) = (unat w + n mod 2 ^ 16) mod 2 ^ 16"
    by (simp only: unat_word_ariths unat_of_nat len_of_numeral_defs) simp
  with assms show ?thesis
    by simp
qed

text \<open>
  Pushes that neither exceed the capacity nor wrap the write counter all go through.
\<close>

lemma fifo_run_pushes:
  "fifo_wf k h f \<Longrightarrow> unat (read f) \<le> unat (write f) \<Longrightarrow>
   unat (write f) - unat (read f) + length vs \<le> 2 ^ k \<Longrightarrow>
   unat (write f) + length vs < 65536 \<Longrightarrow>
   \<exists>f'. fifo_run asserts h (map Push vs) f = Inr (f', []) \<and> fifo_wf k h f' \<and>
     write f' = write f + of_nat (length vs) \<and> read f' = read f"
proof (induction vs arbitrary: f)
  case Nil
  then show ?case by simp
next
  case (Cons v vs)
  let ?f1 = "f\<lparr>buf := (buf f)[unat (fifo_offset h (write f)) := v], write := write f + 1\<rparr>"
  from Cons.prems have "\<not> fifo_full h f"
    by (simp add: not_full_wf [OF Cons.prems(1)])
  then have p: "fifo_push asserts h v f = Inr ?f1"
    using fifo_push_wf [OF Cons.prems(1), of asserts v] by simp
  have wf1: "fifo_wf k h ?f1"
    using Cons.prems(1) by (simp add: fifo_wf_def)
  have w1: "unat (write f + 1) = unat (write f) + 1"
    using unat16_add [of "write f" 1] Cons.prems(4) by simp
  from Cons.prems w1 have "unat (read ?f1) \<le> unat (write ?f1)"
    and "unat (write ?f1) - unat (read ?f1) + length vs \<le> 2 ^ k"
    and "unat (write ?f1) + length vs < 65536"
    by simp_all
  from Cons.IH [OF wf1 this] obtain f' where
    "fifo_run asserts h (map Push vs) ?f1 = Inr (f', [])" "fifo_wf k h f'"
    "write f' = write ?f1 + of_nat (length vs)" "read f' = read ?f1"
    by blast
  then show ?case
    using p by (simp add: add.assoc)
qed

text \<open>
  Claim C4, for a fill during which the 16-bit write counter does not wrap.  Starting
  from an empty fifo of capacity \<open>C = 2 ^ k\<close> whose write counter is below
  \<open>65536 - C\<close> (as it is for a newly defined fifo of at most \<open>2 ^ 15\<close> bytes), each of
  \<open>C\<close> successive pushes finds \<^const>\<open>fifo_full\<close> false, for every choice of the bytes;
  after the \<open>C\<close>-th push \<^const>\<open>fifo_full\<close> is true, and one more push fails its
  assertion.
\<close>

theorem fifo_fill:
  assumes wf: "fifo_wf k h f" and em: "fifo_empty h f"
    and nowrap: "unat (write f) + 2 ^ k < 65536" and len: "length vs = 2 ^ k"
  shows "unat (fifo_capacity h) = 2 ^ k \<and>
     (\<forall>j < 2 ^ k. \<exists>fj. fifo_run asserts h (map Push (take j vs)) f = Inr (fj, []) \<and>
        \<not> fifo_full h fj) \<and>
     (\<exists>f'. fifo_run asserts h (map Push vs) f = Inr (f', []) \<and> fifo_full h f' \<and>
        fifo_push True h v f' = Inl (Assert_Failed ''push to full fifo''))"
proof -
  from em have rw: "read f = write f"
    by (simp add: fifo_empty_iff)
  have step: "\<exists>fj. fifo_run asserts h (map Push (take j vs)) f = Inr (fj, []) \<and>
      (fifo_full h fj \<longleftrightarrow> j = 2 ^ k)" if j: "j \<le> 2 ^ k" for j
  proof -
    from j len have l: "length (take j vs) = j"
      by simp
    from fifo_run_pushes [OF wf, of "take j vs" asserts] rw j nowrap l
    obtain fj where run: "fifo_run asserts h (map Push (take j vs)) f = Inr (fj, [])"
      and wfj: "fifo_wf k h fj" and w: "write fj = write f + of_nat j" and r: "read fj = read f"
      by auto
    from j nowrap have "unat (write f + of_nat j) = unat (write f) + j"
      by (intro unat16_add) simp
    with w r rw j have "\<not> fifo_full h fj \<longleftrightarrow> j < 2 ^ k"
      by (simp add: not_full_wf [OF wfj])
    with j run show ?thesis
      by auto
  qed
  have before: "\<forall>j < 2 ^ k. \<exists>fj. fifo_run asserts h (map Push (take j vs)) f = Inr (fj, []) \<and>
      \<not> fifo_full h fj"
  proof (intro allI impI)
    fix j :: nat
    assume "j < 2 ^ k"
    with step [of j] show "\<exists>fj. fifo_run asserts h (map Push (take j vs)) f = Inr (fj, []) \<and>
        \<not> fifo_full h fj"
      by auto
  qed
  from step [of "2 ^ k"] len obtain f' where
    run: "fifo_run asserts h (map Push vs) f = Inr (f', [])" and fu: "fifo_full h f'"
    by auto
  from fu have "fifo_push True h v f' = Inl (Assert_Failed ''push to full fifo'')"
    by (simp add: fifo_push_def)
  with run fu before unat_capacity_wf [OF wf] show ?thesis
    by blast
qed

theorem fifo_fill_witness:
  "fifo_wf 2 \<lparr>capacity_mask = 3\<rparr> \<lparr>write = 10, read = 10, buf = [0, 0, 0, 0]\<rparr> \<and>
   fifo_empty \<lparr>capacity_mask = 3\<rparr> \<lparr>write = 10, read = 10, buf = [0, 0, 0, 0]\<rparr> \<and>
   unat (10 :: u16_t) + 2 ^ 2 < (65536 :: nat) \<and>
   length [1, 2, 3, 4 :: u8_t] = 2 ^ 2 \<and>
   fifo_run True \<lparr>capacity_mask = 3\<rparr> (map Push [1, 2, 3, 4])
     \<lparr>write = 10, read = 10, buf = [0, 0, 0, 0]\<rparr> =
     Inr (\<lparr>write = 14, read = 10, buf = [3, 4, 1, 2]\<rparr>, []) \<and>
   fifo_full \<lparr>capacity_mask = 3\<rparr> \<lparr>write = 14, read = 10, buf = [3, 4, 1, 2]\<rparr> \<and>
   fifo_push True \<lparr>capacity_mask = 3\<rparr> 5 \<lparr>write = 14, read = 10, buf = [3, 4, 1, 2]\<rparr> =
     Inl (Assert_Failed ''push to full fifo'')"
proof -
  let ?h = "\<lparr>capacity_mask = 3\<rparr>"
  let ?f = "\<lparr>write = 10, read = 10, buf = [0, 0, 0, 0]\<rparr>"
  let ?f' = "\<lparr>write = 14, read = 10, buf = [3, 4, 1, 2]\<rparr>"
  have wf: "fifo_wf 2 ?h ?f"
    by (simp add: fifo_wf_def)
  have em: "fifo_empty ?h ?f"
    by (simp add: fifo_empty_iff)
  have nowrap: "unat (write ?f) + 2 ^ 2 < 65536"
    by simp
  have len: "length [1, 2, 3, 4 :: u8_t] = 2 ^ 2"
    by simp
  have run: "fifo_run True ?h (map Push [1, 2, 3, 4]) ?f = Inr (?f', [])"
    by (simp add: fifo_push_def fifo_eval)
  from fifo_fill [OF wf em nowrap len, of True 5] obtain f' where
    "fifo_run True ?h (map Push [1, 2, 3, 4]) ?f = Inr (f', [])" "fifo_full ?h f'"
    "fifo_push True ?h 5 f' = Inl (Assert_Failed ''push to full fifo'')"
    by blast
  with run have "fifo_full ?h ?f'"
    and "fifo_push True ?h 5 ?f' = Inl (Assert_Failed ''push to full fifo'')"
    by simp_all
  with wf em nowrap len run show ?thesis
    by simp
qed

text \<open>
  Claim C4 as stated fails for the capacity \<open>2 ^ 16\<close>: each of the 65536 pushes finds
  the fifo not full, and after the last one the fifo is in its initial state again,
  empty and not full.
\<close>

theorem fifo_not_full_after_64k:
  "FIFO_DEFINE 65536 = Inr \<lparr>write = 0, read = 0, buf = replicate 65536 0\<rparr> \<and>
   FIFO_INITIALIZER \<lparr>write = 0, read = 0, buf = replicate 65536 0\<rparr> = \<lparr>capacity_mask = 65535\<rparr> \<and>
   fifo_capacity \<lparr>capacity_mask = 65535\<rparr> = 65536 \<and>
   fifo_empty \<lparr>capacity_mask = 65535\<rparr> \<lparr>write = 0, read = 0, buf = replicate 65536 0\<rparr> \<and>
   fifo_run True \<lparr>capacity_mask = 65535\<rparr> (replicate 65536 (Push 0))
     \<lparr>write = 0, read = 0, buf = replicate 65536 0\<rparr> =
     Inr (\<lparr>write = 0, read = 0, buf = replicate 65536 0\<rparr>, []) \<and>
   \<not> fifo_full \<lparr>capacity_mask = 65535\<rparr> \<lparr>write = 0, read = 0, buf = replicate 65536 0\<rparr>"
proof -
  let ?h = "\<lparr>capacity_mask = 65535\<rparr>"
  let ?f0 = "\<lparr>write = 0, read = 0, buf = replicate 65536 0\<rparr>"
  have def: "FIFO_DEFINE 65536 = Inr ?f0"
    by (simp add: FIFO_DEFINE_def offsetof_buf_def)
  have ini: "FIFO_INITIALIZER ?f0 = ?h"
    by (simp add: FIFO_INITIALIZER_def FIFO_CAPACITY_def sizeof_name_def)
  have cap: "fifo_capacity ?h = 65536"
    by (simp add: fifo_capacity_def)
  have em: "fifo_empty ?h ?f0"
    by (simp add: fifo_empty_iff)
  have run: "fifo_run True ?h (replicate 65536 (Push 0)) ?f0 = Inr (?f0, [])"
    by (simp add: push_zeros_64k u16_wrap)
  from def ini cap em run not_full_64k [of 0] show ?thesis
    by (intro conjI)
qed

section \<open>The write counter wraps\<close>

text \<open>
  A fifo of four zero bytes through which single zero bytes are passed: each push
  followed by a pop moves both counters by one and leaves the storage as it is.
\<close>

lemma wf_4: "fifo_wf 2 \<lparr>capacity_mask = 3\<rparr> \<lparr>write = w, read = r, buf = replicate 4 0\<rparr>"
  by (simp add: fifo_wf_def)

lemma push_pop_zero_4:
  "fifo_run a \<lparr>capacity_mask = 3\<rparr> (Push 0 # Pop # ops)
     \<lparr>write = w, read = w, buf = replicate 4 0\<rparr> =
   (case fifo_run a \<lparr>capacity_mask = 3\<rparr> ops
           \<lparr>write = w + 1, read = w + 1, buf = replicate 4 0\<rparr> of
      Inl e \<Rightarrow> Inl e
    | Inr (f', out) \<Rightarrow> Inr (f', 0 # out))"
proof -
  let ?h = "\<lparr>capacity_mask = 3\<rparr>"
  have nf: "\<not> fifo_full ?h \<lparr>write = w, read = w, buf = replicate 4 0\<rparr>"
    by (simp add: not_full_wf [OF wf_4])
  have push: "fifo_push a ?h 0 \<lparr>write = w, read = w, buf = replicate 4 0\<rparr> =
      Inr \<lparr>write = w + 1, read = w, buf = replicate 4 0\<rparr>"
    using nf by (simp add: fifo_push_wf [OF wf_4] replicate_update_same)
  have "unat (fifo_offset ?h w) < 4"
    using offset_in_bounds [OF wf_4, of w] by simp
  then have pop: "fifo_pop a ?h \<lparr>write = w + 1, read = w, buf = replicate 4 0\<rparr> =
      Inr (0, \<lparr>write = w + 1, read = w + 1, buf = replicate 4 0\<rparr>)"
    by (simp add: fifo_pop_wf [OF wf_4] fifo_empty_iff)
  show ?thesis
    by (simp add: push pop)
qed

lemma push_pop_zeros_4:
  "fifo_run a \<lparr>capacity_mask = 3\<rparr> (concat (replicate n [Push 0, Pop]) @ ops)
     \<lparr>write = w, read = w, buf = replicate 4 0\<rparr> =
   (case fifo_run a \<lparr>capacity_mask = 3\<rparr> ops
           \<lparr>write = w + of_nat n, read = w + of_nat n, buf = replicate 4 0\<rparr> of
      Inl e \<Rightarrow> Inl e
    | Inr (f', out) \<Rightarrow> Inr (f', replicate n 0 @ out))"
proof (induction n arbitrary: w)
  case 0
  show ?case by (simp split: sum.split)
next
  case (Suc n)
  show ?case
    by (simp add: push_pop_zero_4 Suc.IH add.assoc del: fifo_run.simps split: sum.split)
qed

text \<open>
  Claim C1 at a fifo whose write counter has wrapped.  A fifo of capacity 4 is defined
  and one byte at a time is pushed and popped 65535 times; then one more byte is
  pushed.  Every operation respects its precondition.  The write counter is now 0 and
  the read counter 65535, one byte is buffered and \<open>(0 - 65535) mod 2 ^ 16 = 1\<close>, but
  \<^const>\<open>fifo_used\<close> returns \<open>4294901761 = 2 ^ 32 - 65535\<close>, far above the capacity: the
  counters are promoted to \<^verbatim>\<open>int\<close> before the subtraction, so the difference is
  \<open>-65535\<close> and is converted to \<^verbatim>\<open>size_t\<close> without being reduced modulo \<open>2 ^ 16\<close>.
\<close>

theorem fifo_used_after_wrap:
  "FIFO_DEFINE 4 = Inr \<lparr>write = 0, read = 0, buf = replicate 4 0\<rparr> \<and>
   FIFO_INITIALIZER \<lparr>write = 0, read = 0, buf = replicate 4 0\<rparr> = \<lparr>capacity_mask = 3\<rparr> \<and>
   disciplined \<lparr>capacity_mask = 3\<rparr> (concat (replicate 65535 [Push 0, Pop]) @ [Push 0])
     \<lparr>write = 0, read = 0, buf = replicate 4 0\<rparr> \<and>
   fifo_run True \<lparr>capacity_mask = 3\<rparr> (concat (replicate 65535 [Push 0, Pop]) @ [Push 0])
     \<lparr>write = 0, read = 0, buf = replicate 4 0\<rparr> =
     Inr (\<lparr>write = 0, read = 65535, buf = replicate 4 0\<rparr>, replicate 65535 0) \<and>
   fifo_used \<lparr>capacity_mask = 3\<rparr> \<lparr>write = 0, read = 65535, buf = replicate 4 0\<rparr> = 4294901761 \<and>
   fifo_capacity \<lparr>capacity_mask = 3\<rparr> = 4 \<and>
   \<not> fifo_used \<lparr>capacity_mask = 3\<rparr> \<lparr>write = 0, read = 65535, buf = replicate 4 0\<rparr>
       \<le> fifo_capacity \<lparr>capacity_mask = 3\<rparr> \<and>
   (0 - 65535 :: u16_t) = 1"
proof -
  let ?h = "\<lparr>capacity_mask = 3\<rparr>"
  let ?init = "\<lparr>write = 0, read = 0, buf = replicate 4 0\<rparr>"
  let ?g = "\<lparr>write = 0, read = 65535, buf = replicate 4 0\<rparr>"
  let ?ops = "concat (replicate 65535 [Push 0, Pop]) @ [Push 0]"
  have def: "FIFO_DEFINE 4 = Inr ?init"
    by (simp add: FIFO_DEFINE_def offsetof_buf_def)
  have ini: "FIFO_INITIALIZER ?init = ?h"
    by (simp add: FIFO_INITIALIZER_def FIFO_CAPACITY_def sizeof_name_def)
  have nf: "\<not> fifo_full ?h \<lparr>write = 65535, read = 65535, buf = replicate 4 0\<rparr>"
    by (simp add: not_full_wf [OF wf_4])
  have push: "fifo_push True ?h 0 \<lparr>write = 65535, read = 65535, buf = replicate 4 0\<rparr> = Inr ?g"
    using nf by (simp add: fifo_push_wf [OF wf_4] replicate_update_same)
  have run: "fifo_run True ?h ?ops ?init = Inr (?g, replicate 65535 0)"
    unfolding push_pop_zeros_4 by (simp add: push)
  have di: "disciplined ?h ?ops ?init"
    unfolding disciplined_iff_run [OF wf_4] run by simp
  have used: "fifo_used ?h ?g = 4294901761"
    by (simp add: fifo_used_eq int_promote_def)
  have cap: "fifo_capacity ?h = 4"
    by (simp add: fifo_capacity_def)
  have gt: "\<not> fifo_used ?h ?g \<le> fifo_capacity ?h"
    unfolding used cap by (simp add: word_le_nat_alt)
  have m: "(0 - 65535 :: u16_t) = 1"
    by simp
  from def ini di run used cap gt m show ?thesis
    by (intro conjI)
qed

end
